theory Spec2Isabelle
  imports Complex_Main
begin

unbundle bit_operations_syntax

section \<open>Python values and exceptions\<close>

text \<open>
  The exceptions that the modelled code can raise or let through.  \<open>Exception\<close> carries the
  message of a plain \<^verbatim>\<open>raise Exception(...)\<close>, \<open>InvalidParameters\<close> the message of the
  show-configuration error, \<open>InvalidParametersUnknown\<close> the parameter name handed to
  \<^verbatim>\<open>InvalidParameters.unknown\<close>, and \<open>HookError\<close> stands for any other exception that a
  subclass hook or the transport raises.
\<close>

datatype error =
    Exception string
  | IndexError
  | ZeroDivisionError
  | TypeError
  | ValueError
  | KeyboardInterrupt
  | InvalidParameters string
  | InvalidParametersUnknown string
  | HookError string

section \<open>Python list primitives\<close>

text \<open>
  Python's \<^verbatim>\<open>xs[i]\<close> counts a negative index from the end and raises IndexError outside
  \<open>[-len, len)\<close>.
\<close>

definition py_index :: "'a list \<Rightarrow> int \<Rightarrow> error + nat" where
  "py_index xs i =
     (let n = int (length xs); j = (if i < 0 then n + i else i)
      in if 0 \<le> j \<and> j < n then Inr (nat j) else Inl IndexError)"

definition py_getitem :: "'a list \<Rightarrow> int \<Rightarrow> error + 'a" where
  "py_getitem xs i = (case py_index xs i of Inl e \<Rightarrow> Inl e | Inr j \<Rightarrow> Inr (xs ! j))"

definition py_setitem :: "'a list \<Rightarrow> int \<Rightarrow> 'a \<Rightarrow> error + 'a list" where
  "py_setitem xs i v = (case py_index xs i of Inl e \<Rightarrow> Inl e | Inr j \<Rightarrow> Inr (xs[j := v]))"

text \<open>
  Python's slices \<^verbatim>\<open>xs[c:]\<close> and \<^verbatim>\<open>xs[:c]\<close>: a negative bound counts from the end, and
  bounds are clamped to the list (\<open>drop\<close> and \<open>take\<close> clamp above).
\<close>

definition slice_bound :: "'a list \<Rightarrow> int \<Rightarrow> nat" where
  "slice_bound xs c = nat (if c < 0 then max (int (length xs) + c) 0 else c)"

definition slice_from :: "'a list \<Rightarrow> int \<Rightarrow> 'a list" where
  "slice_from xs c = drop (slice_bound xs c) xs"

definition slice_to :: "'a list \<Rightarrow> int \<Rightarrow> 'a list" where
  "slice_to xs c = take (slice_bound xs c) xs"

text \<open>
  Python's \<^verbatim>\<open>round\<close> on a float rounds to the nearest integer and a tie to the even
  neighbour.  The float expression \<^verbatim>\<open>brightness / 100 * 31\<close> is modelled on the rationals:
  for an integer brightness its exact value is a multiple of \<open>1/100\<close>, so it is either a tie
  or at least \<open>1/100\<close> away from one, far more than the float rounding error.
\<close>

definition py_round :: "rat \<Rightarrow> int" where
  "py_round x =
     (let f = \<lfloor>x\<rfloor>; d = x - of_int f
      in if d < 1 / 2 then f else if 1 / 2 < d then f + 1 else if even f then f else f + 1)"

section \<open>The APA102 driver (drivers/apa102.py)\<close>

text \<open>
  The driver object.  \<open>leds\<close> is the frame buffer, \<open>synced_buffer\<close> the shared mirror array,
  and \<open>spi\<close> records the transfers handed to \<^verbatim>\<open>spi.xfer2\<close>, oldest first; the transport
  is taken to accept every transfer.
\<close>

record apa102 =
  num_leds :: int
  max_clock_speed_hz :: int
  leds :: "int list"
  synced_buffer :: "int list"
  spi :: "int list list"

text \<open>
  A method that mutates the object returns the object as it is left and the exception it
  raised, if any: what was written before an exception stays written.
\<close>

type_synonym cmd = "apa102 \<Rightarrow> apa102 \<times> error option"

definition andthen :: "cmd \<Rightarrow> cmd \<Rightarrow> cmd" where
  "andthen f g s = (case f s of (s', Some e) \<Rightarrow> (s', Some e) | (s', None) \<Rightarrow> g s')"

text \<open>The statement \<^verbatim>\<open>self.leds[i] = v\<close>.\<close>

definition leds_assign :: "int \<Rightarrow> int \<Rightarrow> cmd" where
  "leds_assign i v s =
     (case py_setitem (leds s) i v of
        Inl e \<Rightarrow> (s, Some e)
      | Inr xs \<Rightarrow> (s\<lparr>leds := xs\<rparr>, None))"

text \<open>\<^verbatim>\<open>APA102.led_prefix\<close>.\<close>

definition led_prefix :: "int \<Rightarrow> int" where
  "led_prefix brightness =
     (let brightness_byte = py_round (of_int brightness / 100 * 31)
      in (brightness_byte AND 0x1F) OR 0xE0)"

text \<open>\<^verbatim>\<open>APA102._set_pixel\<close> (the leading underscore is not part of an Isabelle name).\<close>

definition set_pixel :: "int \<Rightarrow> int \<Rightarrow> int \<Rightarrow> int \<Rightarrow> cmd" where
  "set_pixel led_num red green blue s =
     (if led_num < 0 then (s, None)
      else if led_num \<ge> num_leds s then (s, None)
      else
        (let start_index = 4 * led_num
         in andthen (leds_assign (start_index + 3) red)
              (andthen (leds_assign (start_index + 2) green)
                 (leds_assign (start_index + 1) blue)) s))"

text \<open>\<^verbatim>\<open>APA102.get_pixel\<close>: reads only; returns \<open>(red, green, blue)\<close>.\<close>

definition get_pixel :: "int \<Rightarrow> apa102 \<Rightarrow> error + (int \<times> int \<times> int)" where
  "get_pixel led_num s =
     (let start_index = 4 * led_num
      in case py_getitem (leds s) (start_index + 3) of Inl e \<Rightarrow> Inl e | Inr red \<Rightarrow>
         (case py_getitem (leds s) (start_index + 2) of Inl e \<Rightarrow> Inl e | Inr green \<Rightarrow>
         (case py_getitem (leds s) (start_index + 1) of Inl e \<Rightarrow> Inl e | Inr blue \<Rightarrow>
            Inr (red, green, blue))))"

text \<open>\<^verbatim>\<open>APA102._set_brightness\<close>.\<close>

definition set_brightness :: "int \<Rightarrow> int \<Rightarrow> cmd" where
  "set_brightness led_num brightness = leds_assign (4 * led_num) (led_prefix brightness)"

text \<open>\<^verbatim>\<open>APA102.spi_start_frame\<close> and \<^verbatim>\<open>APA102.spi_end_frame\<close>; a list times a non-positive
  number is the empty list.\<close>

definition spi_start_frame :: "int list" where
  "spi_start_frame = [0, 0, 0, 0]"

definition spi_end_frame :: "int \<Rightarrow> int list" where
  "spi_end_frame n = replicate (nat ((n + 15) div 16)) 0x00"

text \<open>\<^verbatim>\<open>spi.xfer2\<close> and \<^verbatim>\<open>APA102.show\<close> (named \<open>show_strip\<close>, as \<open>show\<close> is a keyword).\<close>

definition xfer2 :: "int list \<Rightarrow> cmd" where
  "xfer2 bytes s = (s\<lparr>spi := spi s @ [bytes]\<rparr>, None)"

definition show_strip :: cmd where
  "show_strip s =
     andthen (xfer2 spi_start_frame)
       (andthen (\<lambda>s'. xfer2 (leds s') s')
          (\<lambda>s'. xfer2 (spi_end_frame (num_leds s')) s')) s"

text \<open>Everything sent over the line so far, as one byte sequence.\<close>

definition transmitted :: "apa102 \<Rightarrow> int list" where
  "transmitted s = concat (spi s)"

text \<open>
  \<^verbatim>\<open>APA102.sync_down\<close>: the loop over \<^verbatim>\<open>enumerate(self.synced_buffer)\<close>, index by index.
\<close>

fun sync_down_from :: "nat \<Rightarrow> nat \<Rightarrow> cmd" where
  "sync_down_from i 0 s = (s, None)"
| "sync_down_from i (Suc k) s =
     andthen (leds_assign (int i) (synced_buffer s ! i)) (sync_down_from (Suc i) k) s"

definition sync_down :: cmd where
  "sync_down s = sync_down_from 0 (length (synced_buffer s)) s"

text \<open>\<^verbatim>\<open>APA102.rotate\<close>; \<^verbatim>\<open>%\<close> by zero raises, and Python's \<^verbatim>\<open>%\<close> takes the sign of the
  divisor, as \<open>mod\<close> on \<open>int\<close> does.\<close>

definition rotate_strip :: "int \<Rightarrow> cmd" where
  "rotate_strip positions s =
     (if num_leds s = 0 then (s, Some ZeroDivisionError)
      else
        (let cutoff = 4 * (positions mod num_leds s)
         in (s\<lparr>leds := slice_from (leds s) cutoff @ slice_to (leds s) cutoff\<rparr>, None)))"

text \<open>
  Modelled from the spec: \<^verbatim>\<open>LEDStrip.set_global_brightness\<close> of the base class, which is
  not among the sources.  The spec's constructor "sets every pixel's brightness to
  \<open>initial_brightness\<close>": the prefix of every pixel \<open>0 .. num_leds - 1\<close> is written in index
  order.
\<close>

fun set_brightness_range :: "nat \<Rightarrow> nat \<Rightarrow> int \<Rightarrow> cmd" where
  "set_brightness_range i 0 brightness s = (s, None)"
| "set_brightness_range i (Suc k) brightness s =
     andthen (set_brightness (int i) brightness) (set_brightness_range (Suc i) k brightness) s"

definition set_global_brightness :: "int \<Rightarrow> cmd" where
  "set_global_brightness brightness s = set_brightness_range 0 (nat (num_leds s)) brightness s"

text \<open>
  \<^verbatim>\<open>APA102.__init__\<close>.  The base-class constructor stores the three arguments; the mirror
  array is created from the frame buffer, so it has its length and contents.
\<close>

definition construct :: "int \<Rightarrow> int \<Rightarrow> int \<Rightarrow> error + apa102" where
  "construct n clock initial_brightness =
     (if n > 1024
      then Inl (Exception ''The APA102 LED driver does not support strips of more than 1024 LEDs'')
      else
        (let s0 = \<lparr>num_leds = n, max_clock_speed_hz = clock,
                   leds = concat (replicate (nat n) [0, 0, 0, 0]),
                   synced_buffer = [], spi = []\<rparr>
         in case set_global_brightness initial_brightness s0 of
              (s1, Some e) \<Rightarrow> Inl e
            | (s1, None) \<Rightarrow> Inr (s1\<lparr>synced_buffer := leds s1\<rparr>)))"

text \<open>
  A caller's view of the driver: the operations in any order, the object surviving an
  exception of one of them, and other processes storing into the mirror in between
  (\<open>MirrorStore\<close>: the shared array has a fixed size, so a store never changes its length).
\<close>

datatype driver_call =
    SetPixel int int int int
  | SetBrightness int int
  | Rotate int
  | SyncDown
  | ShowStrip
  | MirrorStore nat int

fun driver_step :: "driver_call \<Rightarrow> apa102 \<Rightarrow> apa102" where
  "driver_step (SetPixel i r g b) s = fst (set_pixel i r g b s)"
| "driver_step (SetBrightness i br) s = fst (set_brightness i br s)"
| "driver_step (Rotate p) s = fst (rotate_strip p s)"
| "driver_step SyncDown s = fst (sync_down s)"
| "driver_step ShowStrip s = fst (show_strip s)"
| "driver_step (MirrorStore i v) s = s\<lparr>synced_buffer := (synced_buffer s)[i := v]\<rparr>"

definition driver_steps :: "driver_call list \<Rightarrow> apa102 \<Rightarrow> apa102" where
  "driver_steps cs s = fold driver_step cs s"

section \<open>The color cycle template (lightshows/templates/colorcycle.py)\<close>

text \<open>
  The values a show parameter can hold.  A float is modelled by a rational: the code only
  asks whether it is zero, negative, equal to \<open>-1\<close> or at most the cycle counter.
\<close>

datatype pyval = PNone | PInt int | PFloat rat | PStr string

text \<open>Python's truth value, as tested by \<^verbatim>\<open>not x\<close>.\<close>

fun truthy :: "pyval \<Rightarrow> bool" where
  "truthy PNone = False"
| "truthy (PInt n) = (n \<noteq> 0)"
| "truthy (PFloat x) = (x \<noteq> 0)"
| "truthy (PStr t) = (t \<noteq> [])"

record colorcycle =
  pause_sec :: pyval
  num_steps_per_cycle :: pyval
  num_cycles :: pyval
  order :: string

definition init_parameters :: "colorcycle \<Rightarrow> colorcycle" where
  "init_parameters st =
     st\<lparr>pause_sec := PNone, num_steps_per_cycle := PNone, num_cycles := PNone, order := ''rgb''\<rparr>"

text \<open>
  A validator of \<^verbatim>\<open>lightshows.utilities.verifyparameters\<close> takes the candidate and the
  parameter name and either raises or returns.  The module is not among the sources, so
  \<open>set_parameter\<close> takes its two validators as arguments.
\<close>

type_synonym validator = "pyval \<Rightarrow> string \<Rightarrow> error option"

definition set_parameter ::
  "validator \<Rightarrow> validator \<Rightarrow> string \<Rightarrow> pyval \<Rightarrow> colorcycle \<Rightarrow> error + colorcycle" where
  "set_parameter not_negative_numeric positive_integer param_name v st =
     (if param_name = ''pause_sec'' then
        (case not_negative_numeric v param_name of
           Some e \<Rightarrow> Inl e
         | None \<Rightarrow> Inr (st\<lparr>pause_sec := v\<rparr>))
      else if param_name = ''num_steps_per_cycle'' then
        (case positive_integer v param_name of
           Some e \<Rightarrow> Inl e
         | None \<Rightarrow> Inr (st\<lparr>num_steps_per_cycle := v\<rparr>))
      else if param_name = ''num_cycles'' then
        (case positive_integer v param_name of
           Some e \<Rightarrow> Inl e
         | None \<Rightarrow> Inr (st\<lparr>num_cycles := v\<rparr>))
      else Inl (InvalidParametersUnknown param_name))"

text \<open>
  Modelled from the spec: \<^verbatim>\<open>verify.not_negative_numeric\<close>, which is not among the sources.
  The spec has \<^verbatim>\<open>pause_sec\<close> a "non-negative numeric" and a wrong type or sign fail
  "with InvalidParameter naming the offending parameter".
\<close>

definition verify_not_negative_numeric :: validator where
  "verify_not_negative_numeric candidate param_name =
     (case candidate of
        PInt n \<Rightarrow> if n < 0 then Some (InvalidParameters param_name) else None
      | PFloat x \<Rightarrow> if x < 0 then Some (InvalidParameters param_name) else None
      | _ \<Rightarrow> Some (InvalidParameters param_name))"

text \<open>
  Modelled from the spec: \<^verbatim>\<open>verify.positive_integer\<close>, which is not among the sources.
  The spec has \<^verbatim>\<open>num_steps_per_cycle\<close> a "positive integer".
\<close>

definition verify_positive_integer :: validator where
  "verify_positive_integer candidate param_name =
     (case candidate of
        PInt n \<Rightarrow> if n \<le> 0 then Some (InvalidParameters param_name) else None
      | _ \<Rightarrow> Some (InvalidParameters param_name))"

text \<open>\<^verbatim>\<open>ColorCycle.check_runnable\<close>.\<close>

definition check_runnable :: "colorcycle \<Rightarrow> error + unit" where
  \<open>check_runnable st =
     (if \<not> truthy (pause_sec st) then
        Inl (InvalidParameters ''Missing parameter "pause_sec"!'')
      else if \<not> truthy (num_steps_per_cycle st) then
        Inl (InvalidParameters ''Missing parameter "num_steps_per_cycle"!'')
      else if \<not> truthy (num_cycles st) then
        Inl (InvalidParameters ''Missing parameter "num_cycles"!'')
      else Inr ())\<close>

subsection \<open>The run loop\<close>

text \<open>
  \<open>run\<close> talks to the subclass hooks, the strip and the clock.  Each such call is recorded
  in a trace; what the call does is decided by the environment, from the calls made before
  it: it returns (for \<open>Update\<close>, the truth value of the result), or it raises.  Ctrl-C is a
  \<open>KeyboardInterrupt\<close> raised while one of these calls is in progress.
\<close>

datatype call =
    Init
  | StripShow
  | Update int int
  | Sleep pyval
  | Shutdown
  | ClearBuffer
  | Release

datatype outcome = Returns bool | Raises error

type_synonym env = "call list \<Rightarrow> call \<Rightarrow> outcome"

text \<open>A run so far: the calls made, and the exception that is propagating, if any.\<close>

type_synonym result = "call list \<times> error option"

definition do_call :: "env \<Rightarrow> call \<Rightarrow> call list \<Rightarrow> result" where
  "do_call env c tr =
     (case env tr c of Raises e \<Rightarrow> (tr @ [c], Some e) | Returns b \<Rightarrow> (tr @ [c], None))"

definition seq :: "(call list \<Rightarrow> result) \<Rightarrow> (call list \<Rightarrow> result) \<Rightarrow> call list \<Rightarrow> result" where
  "seq f g tr = (case f tr of (tr', Some e) \<Rightarrow> (tr', Some e) | (tr', None) \<Rightarrow> g tr')"

text \<open>
  \<^verbatim>\<open>time.sleep\<close> raises TypeError for an argument that is not a number and ValueError for
  a negative one.
\<close>

definition sleep :: "env \<Rightarrow> pyval \<Rightarrow> call list \<Rightarrow> result" where
  "sleep env secs tr =
     (case secs of
        PNone \<Rightarrow> (tr @ [Sleep secs], Some TypeError)
      | PStr t \<Rightarrow> (tr @ [Sleep secs], Some TypeError)
      | PInt n \<Rightarrow> if n < 0 then (tr @ [Sleep secs], Some ValueError) else do_call env (Sleep secs) tr
      | PFloat x \<Rightarrow> if x < 0 then (tr @ [Sleep secs], Some ValueError) else do_call env (Sleep secs) tr)"

text \<open>\<^verbatim>\<open>range(n)\<close>: the integers \<open>0 .. n - 1\<close>, and TypeError for anything but an integer.\<close>

definition py_range :: "pyval \<Rightarrow> error + int list" where
  "py_range v = (case v of PInt n \<Rightarrow> Inr [0..n - 1] | _ \<Rightarrow> Inl TypeError)"

text \<open>
  The loop exit test \<^verbatim>\<open>self.num_cycles != -1 and currentCycle >= self.num_cycles\<close>;
  an integer cannot be ordered against None or a string.
\<close>

definition cycles_done :: "pyval \<Rightarrow> int \<Rightarrow> error + bool" where
  "cycles_done n currentCycle =
     (case n of
        PNone \<Rightarrow> Inl TypeError
      | PStr t \<Rightarrow> Inl TypeError
      | PInt k \<Rightarrow> Inr (k \<noteq> - 1 \<and> currentCycle \<ge> k)
      | PFloat x \<Rightarrow> Inr (x \<noteq> - 1 \<and> of_int currentCycle \<ge> x))"

text \<open>
  Modelled from the spec: \<^verbatim>\<open>strip.clearStrip()\<close> and \<^verbatim>\<open>strip.cleanup()\<close> of the strip's base
  class, which is not among the sources.  The spec's cleanup is "\<open>shutdown(strip)\<close>; clear
  entire frame buffer to off; \<open>show()\<close>; release the transport resource".
\<close>

definition clearStrip :: "env \<Rightarrow> call list \<Rightarrow> result" where
  "clearStrip env = seq (do_call env ClearBuffer) (do_call env StripShow)"

definition strip_cleanup :: "env \<Rightarrow> call list \<Rightarrow> result" where
  "strip_cleanup env = do_call env Release"

text \<open>\<^verbatim>\<open>ColorCycle.cleanup\<close>.\<close>

definition cleanup :: "env \<Rightarrow> call list \<Rightarrow> result" where
  "cleanup env = seq (do_call env Shutdown) (seq (clearStrip env) (strip_cleanup env))"

text \<open>One pass of the body of the \<^verbatim>\<open>for\<close> loop, lines 96 to 99.\<close>

definition one_step :: "env \<Rightarrow> pyval \<Rightarrow> int \<Rightarrow> int \<Rightarrow> call list \<Rightarrow> result" where
  "one_step env pause currentStep currentCycle tr =
     (case env tr (Update currentStep currentCycle) of
        Raises e \<Rightarrow> (tr @ [Update currentStep currentCycle], Some e)
      | Returns needRepaint \<Rightarrow>
          seq (if needRepaint then do_call env StripShow else (\<lambda>tr'. (tr', None)))
              (sleep env pause)
              (tr @ [Update currentStep currentCycle]))"

fun run_steps :: "env \<Rightarrow> pyval \<Rightarrow> int \<Rightarrow> int list \<Rightarrow> call list \<Rightarrow> result" where
  "run_steps env pause currentCycle [] tr = (tr, None)"
| "run_steps env pause currentCycle (currentStep # rest) tr =
     (case one_step env pause currentStep currentCycle tr of
        (tr', Some e) \<Rightarrow> (tr', Some e)
      | (tr', None) \<Rightarrow> run_steps env pause currentCycle rest tr')"

text \<open>
  The \<^verbatim>\<open>while True\<close> loop, which does not end when \<^verbatim>\<open>num_cycles\<close> is \<open>-1\<close>: the first
  argument bounds the number of cycles followed, and \<open>None\<close> says that the loop was still
  running after that many.
\<close>

fun run_cycles :: "nat \<Rightarrow> env \<Rightarrow> colorcycle \<Rightarrow> int \<Rightarrow> call list \<Rightarrow> result option" where
  "run_cycles 0 env st currentCycle tr = None"
| "run_cycles (Suc fuel) env st currentCycle tr =
     (case py_range (num_steps_per_cycle st) of
        Inl e \<Rightarrow> Some (tr, Some e)
      | Inr steps \<Rightarrow>
          (case run_steps env (pause_sec st) currentCycle steps tr of
             (tr', Some e) \<Rightarrow> Some (tr', Some e)
           | (tr', None) \<Rightarrow>
               (case cycles_done (num_cycles st) (currentCycle + 1) of
                  Inl e \<Rightarrow> Some (tr', Some e)
                | Inr True \<Rightarrow> Some (tr', None)
                | Inr False \<Rightarrow> run_cycles fuel env st (currentCycle + 1) tr')))"

text \<open>Lines 91 to 102 of \<^verbatim>\<open>ColorCycle.run\<close>: the init hook, the first transmission, the loop.\<close>

definition run_show :: "nat \<Rightarrow> env \<Rightarrow> colorcycle \<Rightarrow> result option" where
  "run_show fuel env st =
     (case seq (do_call env Init) (do_call env StripShow) [] of
        (tr, Some e) \<Rightarrow> Some (tr, Some e)
      | (tr, None) \<Rightarrow> run_cycles fuel env st 0 tr)"

text \<open>
  \<^verbatim>\<open>ColorCycle.run\<close>: the body of the \<^verbatim>\<open>try\<close> is \<open>run_show\<close> followed by \<open>cleanup\<close>; a
  KeyboardInterrupt out of either is caught and answered by \<open>cleanup\<close>; any other
  exception leaves \<open>run\<close>.
\<close>

definition run_try :: "nat \<Rightarrow> env \<Rightarrow> colorcycle \<Rightarrow> result option" where
  "run_try fuel env st =
     (case run_show fuel env st of
        None \<Rightarrow> None
      | Some (tr, Some e) \<Rightarrow> Some (tr, Some e)
      | Some (tr, None) \<Rightarrow> Some (cleanup env tr))"

definition run :: "nat \<Rightarrow> env \<Rightarrow> colorcycle \<Rightarrow> result option" where
  "run fuel env st =
     (case run_try fuel env st of
        None \<Rightarrow> None
      | Some (tr, Some KeyboardInterrupt) \<Rightarrow> Some (cleanup env tr)
      | Some r \<Rightarrow> Some r)"

text \<open>The \<open>(step, cycle)\<close> arguments of the calls of the update hook, in call order.\<close>

fun update_args :: "call list \<Rightarrow> (int \<times> int) list" where
  "update_args [] = []"
| "update_args (Update s c # tr) = (s, c) # update_args tr"
| "update_args (_ # tr) = update_args tr"

text \<open>The four calls of one execution of \<open>cleanup\<close>, in order.\<close>

definition cleanup_calls :: "call list" where
  "cleanup_calls = [Shutdown, ClearBuffer, StripShow, Release]"

text \<open>
  \<open>cleanup\<close> calls the shutdown hook first and nothing else calls it, so the number of
  executions of \<open>cleanup\<close> in a run is the number of \<open>Shutdown\<close> calls in its trace.
\<close>

definition cleanup_runs :: "call list \<Rightarrow> nat" where
  "cleanup_runs tr = count_list tr Shutdown"

text \<open>
  The four bytes of pixel \<open>i\<close> as the wire format lists them: the prefix byte, then blue,
  green and red as \<open>get_pixel\<close> reads them.
\<close>

definition pixel_frame :: "apa102 \<Rightarrow> int \<Rightarrow> int list" where
  "pixel_frame s i =
     (case (py_getitem (leds s) (4 * i), get_pixel i s) of
        (Inr prefix, Inr (red, green, blue)) \<Rightarrow> [prefix, blue, green, red]
      | _ \<Rightarrow> [])"


text \<open>
  The calls of the concrete scenario: three pixels set to red, green and blue, then
  \<^verbatim>\<open>show()\<close>.
\<close>

definition scenario :: cmd where
  "scenario =
     andthen (set_pixel 0 255 0 0)
       (andthen (set_pixel 1 0 255 0) (andthen (set_pixel 2 0 0 255) show_strip))"

text \<open>The two quantities that the buffer invariant relates.\<close>

definition shape :: "apa102 \<Rightarrow> nat \<times> int" where
  "shape s = (length (leds s), num_leds s)"

section \<open>Concrete objects for the instances below\<close>

text \<open>A caller's sequence of driver operations, one of them with an index out of range.\<close>

definition calls1 :: "driver_call list" where
  "calls1 = [MirrorStore 0 5, SyncDown, SetPixel 0 255 0 0, Rotate (- 1), SetBrightness 7 50,
             ShowStrip]"

text \<open>A strip of three pixels at full brightness, all colours off, as constructed.\<close>

definition strip3 :: apa102 where
  "strip3 = \<lparr>num_leds = 3, max_clock_speed_hz = 4000000,
             leds = [255, 0, 0, 0, 255, 0, 0, 0, 255, 0, 0, 0],
             synced_buffer = [255, 0, 0, 0, 255, 0, 0, 0, 255, 0, 0, 0], spi = []\<rparr>"

text \<open>The same strip with pixel 0 red, pixel 1 green and pixel 2 blue.\<close>

definition strip3c :: apa102 where
  "strip3c = strip3\<lparr>leds := [255, 0, 0, 255, 255, 0, 255, 0, 255, 255, 0, 0]\<rparr>"

text \<open>An argument that \<^verbatim>\<open>time.sleep\<close> accepts.\<close>

definition valid_pause :: "pyval \<Rightarrow> bool" where
  "valid_pause v = (case v of PInt n \<Rightarrow> 0 \<le> n | PFloat x \<Rightarrow> 0 \<le> x | _ \<Rightarrow> False)"

text \<open>
  A show configured by \<^verbatim>\<open>init_parameters()\<close>, \<^verbatim>\<open>set_parameter("pause_sec", 0)\<close>,
  \<^verbatim>\<open>set_parameter("num_steps_per_cycle", 5)\<close> and \<^verbatim>\<open>set_parameter("num_cycles", 3)\<close>, and
  the state that this leaves.
\<close>

definition zero_pause_show :: "error + colorcycle" where
  "zero_pause_show =
     (case set_parameter verify_not_negative_numeric verify_positive_integer ''pause_sec'' (PInt 0)
             (init_parameters \<lparr>pause_sec = PNone, num_steps_per_cycle = PNone,
                                num_cycles = PNone, order = []\<rparr>) of
        Inl e \<Rightarrow> Inl e
      | Inr st1 \<Rightarrow>
          (case set_parameter verify_not_negative_numeric verify_positive_integer
                  ''num_steps_per_cycle'' (PInt 5) st1 of
             Inl e \<Rightarrow> Inl e
           | Inr st2 \<Rightarrow>
               set_parameter verify_not_negative_numeric verify_positive_integer
                 ''num_cycles'' (PInt 3) st2))"

definition st_0_5_3 :: colorcycle where
  "st_0_5_3 =
     \<lparr>pause_sec = PInt 0, num_steps_per_cycle = PInt 5, num_cycles = PInt 3, order = ''rgb''\<rparr>"



definition env_quiet :: env where
  "env_quiet tr c = Returns (even (length tr))"

text \<open>
  A show of one cycle of one step, and Ctrl-C arriving while the buffer is cleared for the
  first time.
\<close>

definition st_0_1_1 :: colorcycle where
  "st_0_1_1 =
     \<lparr>pause_sec = PInt 0, num_steps_per_cycle = PInt 1, num_cycles = PInt 1, order = ''rgb''\<rparr>"

definition env_ctrl_c_cleanup :: env where
  "env_ctrl_c_cleanup tr c =
     (if c = ClearBuffer \<and> length tr < 6 then Raises KeyboardInterrupt else Returns False)"

section \<open>Properties of the driver\<close>

subsection \<open>List assignment at a valid index\<close>

lemma py_setitem_valid:
  "0 \<le> i \<Longrightarrow> i < int (length xs) \<Longrightarrow> py_setitem xs i v = Inr (xs[nat i := v])"
  by (simp add: py_setitem_def py_index_def)

lemma py_setitem_length:
  "py_setitem xs i v = Inr ys \<Longrightarrow> length ys = length xs"
  by (auto simp: py_setitem_def split: sum.splits)

lemma leds_assign_valid:
  "0 \<le> i \<Longrightarrow> i < int (length (leds s)) \<Longrightarrow>
   leds_assign i v s = (s\<lparr>leds := (leds s)[nat i := v]\<rparr>, None)"
  by (simp add: leds_assign_def py_setitem_valid)

lemma set_pixel_valid:
  assumes "0 \<le> i" "i < num_leds s" "int (length (leds s)) = 4 * num_leds s"
  shows "set_pixel i r g b s =
     (s\<lparr>leds := (leds s)[nat (4 * i + 3) := r, nat (4 * i + 2) := g, nat (4 * i + 1) := b]\<rparr>, None)"
  using assms by (simp add: set_pixel_def andthen_def leds_assign_valid Let_def)

lemma set_brightness_valid:
  assumes "0 \<le> i" "i < num_leds s" "int (length (leds s)) = 4 * num_leds s"
  shows "set_brightness i br s = (s\<lparr>leds := (leds s)[nat (4 * i) := led_prefix br]\<rparr>, None)"
  using assms by (simp add: set_brightness_def leds_assign_valid)

subsection \<open>The prefix byte\<close>

lemma prefix_byte_bits:
  assumes "0 \<le> q" and "q \<le> 31"
  shows "((q AND 0x1F) OR 0xE0) AND 0xE0 = (0xE0::int) \<and> ((q AND 0x1F) OR 0xE0) AND 0x1F = q"
proof -
  have "q \<in> set [0..31]" using assms by simp
  moreover have "\<forall>q \<in> set [0..31].
      ((q AND 0x1F) OR 0xE0) AND 0xE0 = (0xE0::int) \<and> ((q AND 0x1F) OR 0xE0) AND 0x1F = q"
    by code_simp
  ultimately show ?thesis by blast
qed

text \<open>The scaled brightness is halfway between two integers only above an odd one.\<close>

lemma tie_table:
  "\<forall>b \<in> set [0..100]. (b * 31 - 50) mod 100 = 0 \<longrightarrow> odd ((b * 31 - 50) div (100::int))"
  by code_simp

lemma py_round_brightness:
  assumes "0 \<le> b" and "b \<le> 100"
  shows "py_round (of_int b / 100 * 31) = round (of_int b * 31 / 100 :: rat)"
proof -
  define x :: rat where "x = of_int b * 31 / 100"
  define f where "f = \<lfloor>x\<rfloor>"
  have tie: "odd f" if "x - of_int f = 1 / 2"
  proof -
    from that have "of_int b * 31 = (of_int f * 100 + 50 :: rat)" by (simp add: x_def field_simps)
    then have "(of_int (b * 31) :: rat) = of_int (f * 100 + 50)" by simp
    then have e: "b * 31 = f * 100 + 50" by (simp only: of_int_eq_iff)
    then have m: "(b * 31 - 50) mod 100 = 0" and d: "f = (b * 31 - 50) div 100" by simp_all
    have "b \<in> set [0..100]" using assms by simp
    with tie_table have i: "(b * 31 - 50) mod 100 = 0 \<longrightarrow> odd ((b * 31 - 50) div 100)"
      by (rule bspec)
    from i m show ?thesis unfolding d by (rule mp)
  qed
  have lo: "of_int f \<le> x" unfolding f_def by (rule of_int_floor_le)
  have hi: "x < of_int f + 1" unfolding f_def by linarith
  have "round x = (if x - of_int f < 1 / 2 then f else f + 1)"
    unfolding round_def using lo hi by (auto intro!: floor_unique)
  moreover have "py_round x = (if x - of_int f < 1 / 2 then f else f + 1)"
    using tie by (auto simp: py_round_def Let_def f_def)
  ultimately show ?thesis by (simp add: x_def)
qed

lemma round_brightness_range:
  assumes "0 \<le> b" and "b \<le> 100"
  shows "0 \<le> round (of_int b * 31 / 100 :: rat) \<and> round (of_int b * 31 / 100 :: rat) \<le> 31"
proof -
  have "(0::rat) \<le> of_int b * 31 / 100" using assms by simp
  then have "round (0::rat) \<le> round (of_int b * 31 / 100 :: rat)" by (rule round_mono)
  moreover have "of_int b * 31 / 100 \<le> (31::rat)" using assms by simp
  then have "round (of_int b * 31 / 100 :: rat) \<le> round (31::rat)" by (rule round_mono)
  ultimately show ?thesis by simp
qed

text \<open>
  C5.  For every integer brightness \<open>b\<close> from 0 to 100, the top three bits of
  \<open>led_prefix b\<close> are set and its low five bits are \<open>b * 31 / 100\<close> rounded to the nearest
  integer.  (\<open>round\<close> rounds a tie upwards, Python's \<^verbatim>\<open>round\<close> to the even neighbour; the only
  tie in the range is \<open>15.5\<close> at \<open>b = 50\<close>, which both round to 16.)
\<close>

theorem led_prefix_bits:
  assumes "0 \<le> b" and "b \<le> 100"
  shows "led_prefix b AND 0xE0 = 0xE0 \<and>
         led_prefix b AND 0x1F = round (of_int b * 31 / 100 :: rat)"
proof -
  have "led_prefix b = (round (of_int b * 31 / 100 :: rat) AND 0x1F) OR 0xE0"
    by (simp only: led_prefix_def Let_def py_round_brightness [OF assms])
  then show ?thesis
    using prefix_byte_bits [of "round (of_int b * 31 / 100 :: rat)"]
      round_brightness_range [OF assms]
    by simp
qed

theorem led_prefix_bits_witness:
  "(0::int) \<le> 50 \<and> (50::int) \<le> 100 \<and> led_prefix 50 AND 0xE0 = 0xE0 \<and>
   led_prefix 50 AND 0x1F = 16"
proof -
  have r: "round (of_int 50 * 31 / 100 :: rat) = 16" by code_simp
  show ?thesis using led_prefix_bits [of 50] r by simp
qed

subsection \<open>The end frame\<close>

text \<open>
  C8.  For every \<open>num_leds\<close> from 1 to 1024, \<open>spi_end_frame num_leds\<close> has exactly
  \<open>ceil(num_leds / 16)\<close> elements, and each of them is zero.
\<close>

theorem spi_end_frame_length:
  assumes "1 \<le> n" and "n \<le> 1024"
  shows "int (length (spi_end_frame n)) = \<lceil>(of_int n :: rat) / 16\<rceil> \<and>
         (\<forall>x \<in> set (spi_end_frame n). x = 0)"
proof -
  have "\<lceil>(of_int n :: rat) / of_int 16\<rceil> = - (- n div 16)"
    by (rule ceiling_divide_eq_div)
  then have "\<lceil>(of_int n :: rat) / 16\<rceil> = (n + 15) div 16" by simp
  then show ?thesis using assms by (simp add: spi_end_frame_def)
qed

theorem spi_end_frame_length_witness:
  "(1::int) \<le> 17 \<and> (17::int) \<le> 1024 \<and> length (spi_end_frame 17) = 2 \<and>
   \<lceil>(of_int 17 :: rat) / 16\<rceil> = 2 \<and> spi_end_frame 17 = [0, 0]"
proof -
  have c: "\<lceil>(of_int 17 :: rat) / 16\<rceil> = 2" by code_simp
  have e: "spi_end_frame 17 = [0, 0]" by code_simp
  show ?thesis using spi_end_frame_length [of 17] c e by simp
qed

subsection \<open>Writing a pixel\<close>

text \<open>
  C7.  For an index below 0 or at least \<open>num_leds\<close>, and any colour, \<open>set_pixel\<close> returns
  without an exception and leaves the object, and so the frame buffer, as it was.
\<close>

theorem set_pixel_out_of_range:
  assumes "i < 0 \<or> i \<ge> num_leds s"
  shows "set_pixel i r g b s = (s, None)"
  using assms by (auto simp: set_pixel_def)

theorem set_pixel_out_of_range_witness:
  "((3::int) < 0 \<or> 3 \<ge> num_leds strip3) \<and> set_pixel 3 1 2 3 strip3 = (strip3, None)"
  using set_pixel_out_of_range [of 3 strip3 1 2 3]
  by (simp add: strip3_def)

text \<open>
  C10.  On a strip whose buffer holds four bytes per pixel, for a valid index \<open>i\<close>:
  \<open>set_pixel i r g b\<close> raises nothing, changes no field but the buffer, keeps the buffer's
  length and every byte other than the three colour bytes \<open>4i+1\<close>, \<open>4i+2\<close>, \<open>4i+3\<close> of
  pixel \<open>i\<close> (so its prefix byte and all other pixels), and the colour is then read back by
  \<open>get_pixel\<close>; \<open>set_brightness i br\<close> raises nothing, changes no field but the buffer, and
  changes no byte other than the prefix byte \<open>4i\<close>, which becomes \<open>led_prefix br\<close>.
\<close>

theorem set_pixel_set_brightness_frame:
  assumes "0 \<le> i" and "i < num_leds s" and "int (length (leds s)) = 4 * num_leds s"
  shows "snd (set_pixel i r g b s) = None \<and>
         fst (set_pixel i r g b s) = s\<lparr>leds := leds (fst (set_pixel i r g b s))\<rparr> \<and>
         length (leds (fst (set_pixel i r g b s))) = length (leds s) \<and>
         (\<forall>j < length (leds s). j \<notin> {nat (4 * i + 1), nat (4 * i + 2), nat (4 * i + 3)} \<longrightarrow>
            leds (fst (set_pixel i r g b s)) ! j = leds s ! j) \<and>
         get_pixel i (fst (set_pixel i r g b s)) = Inr (r, g, b) \<and>
         snd (set_brightness i br s) = None \<and>
         fst (set_brightness i br s) = s\<lparr>leds := leds (fst (set_brightness i br s))\<rparr> \<and>
         length (leds (fst (set_brightness i br s))) = length (leds s) \<and>
         (\<forall>j < length (leds s). j \<noteq> nat (4 * i) \<longrightarrow>
            leds (fst (set_brightness i br s)) ! j = leds s ! j) \<and>
         leds (fst (set_brightness i br s)) ! nat (4 * i) = led_prefix br"
proof -
  have p: "set_pixel i r g b s =
     (s\<lparr>leds := (leds s)[nat (4 * i + 3) := r, nat (4 * i + 2) := g, nat (4 * i + 1) := b]\<rparr>, None)"
    using assms by (rule set_pixel_valid)
  have q: "set_brightness i br s = (s\<lparr>leds := (leds s)[nat (4 * i) := led_prefix br]\<rparr>, None)"
    using assms by (rule set_brightness_valid)
  have d: "nat (4 * i + 3) \<noteq> nat (4 * i + 2)" "nat (4 * i + 3) \<noteq> nat (4 * i + 1)"
    "nat (4 * i + 2) \<noteq> nat (4 * i + 1)"
    using assms(1) by auto
  have l: "nat (4 * i + 3) < length (leds s)" "nat (4 * i + 2) < length (leds s)"
    "nat (4 * i + 1) < length (leds s)" "nat (4 * i) < length (leds s)"
    using assms by auto
  have g: "get_pixel i (fst (set_pixel i r g b s)) = Inr (r, g, b)"
    using assms d l by (simp add: p get_pixel_def py_getitem_def py_index_def Let_def)
  show ?thesis
    using l d g by (simp add: p q)
qed

theorem set_pixel_set_brightness_frame_witness:
  "(0::int) \<le> 1 \<and> 1 < num_leds strip3 \<and> int (length (leds strip3)) = 4 * num_leds strip3 \<and>
   snd (set_pixel 1 7 8 9 strip3) = None \<and>
   get_pixel 1 (fst (set_pixel 1 7 8 9 strip3)) = Inr (7, 8, 9) \<and>
   leds (fst (set_pixel 1 7 8 9 strip3)) ! 4 = 255 \<and>
   leds (fst (set_brightness 1 50 strip3)) ! 4 = led_prefix 50 \<and>
   leds (fst (set_brightness 1 50 strip3)) ! 5 = 0"
proof -
  have h: "(0::int) \<le> 1" "1 < num_leds strip3"
    "int (length (leds strip3)) = 4 * num_leds strip3"
    by (simp_all add: strip3_def)
  have n: "nat (4 * 1) = 4" "nat (4 * 1 + 1) = 5" "nat (4 * 1 + 2) = 6" "nat (4 * 1 + 3) = 7"
    by simp_all
  have v: "leds strip3 ! 4 = 255" "leds strip3 ! 5 = 0" "length (leds strip3) = 12"
    by (simp_all add: strip3_def)
  from set_pixel_set_brightness_frame [OF h, of 7 8 9 50]
  show ?thesis using h v by (auto simp: n)
qed

subsection \<open>The length of the frame buffer\<close>

lemma leds_assign_length:
  "length (leds (fst (leds_assign i v s))) = length (leds s)"
  by (auto simp: leds_assign_def dest: py_setitem_length split: sum.splits)

lemma leds_assign_num_leds:
  "num_leds (fst (leds_assign i v s)) = num_leds s"
  by (auto simp: leds_assign_def split: sum.splits)

lemma andthen_keeps:
  assumes "\<And>s. P (fst (f s)) = P s" and "\<And>s. P (fst (g s)) = P s"
  shows "P (fst (andthen f g s)) = P s"
proof (cases "f s")
  case (Pair s' x)
  then have "P s' = P s" using assms(1) [of s] by simp
  with Pair show ?thesis using assms(2) [of s'] by (cases x) (simp_all add: andthen_def)
qed

lemma leds_assign_shape: "shape (fst (leds_assign i v s)) = shape s"
  by (simp add: shape_def leds_assign_length leds_assign_num_leds)

lemma set_pixel_shape: "shape (fst (set_pixel i r g b s)) = shape s"
proof -
  have "shape (fst (andthen (leds_assign a r) (andthen (leds_assign c g) (leds_assign d b)) s)) = shape s" for a c d
    by (intro andthen_keeps leds_assign_shape)
  then show ?thesis by (simp add: set_pixel_def Let_def)
qed

lemma set_brightness_shape: "shape (fst (set_brightness i br s)) = shape s"
  by (simp add: set_brightness_def leds_assign_shape)

lemma sync_down_from_shape: "shape (fst (sync_down_from i k s)) = shape s"
proof (induction k arbitrary: i s)
  case 0
  show ?case by simp
next
  case (Suc k)
  obtain s' x where a: "leds_assign (int i) (synced_buffer s ! i) s = (s', x)" by force
  then have "shape s' = shape s" using leds_assign_shape [of "int i" "synced_buffer s ! i" s] by simp
  then show ?case using a Suc [of "Suc i" s'] by (cases x) (simp_all add: andthen_def)
qed

lemma sync_down_shape: "shape (fst (sync_down s)) = shape s"
  by (simp add: sync_down_def sync_down_from_shape)

lemma show_strip_shape: "shape (fst (show_strip s)) = shape s"
  by (simp add: show_strip_def andthen_def xfer2_def shape_def)

lemma rotate_strip_length:
  "0 \<le> num_leds s \<Longrightarrow> length (leds (fst (rotate_strip p s))) = length (leds s)"
  by (auto simp: rotate_strip_def Let_def slice_from_def slice_to_def slice_bound_def)

lemma rotate_strip_shape: "0 \<le> num_leds s \<Longrightarrow> shape (fst (rotate_strip p s)) = shape s"
  by (auto simp: shape_def rotate_strip_length) (auto simp: rotate_strip_def Let_def)

lemma driver_step_shape: "0 \<le> num_leds s \<Longrightarrow> shape (driver_step c s) = shape s"
  by (cases c) (simp_all add: set_pixel_shape set_brightness_shape rotate_strip_shape
      sync_down_shape show_strip_shape, simp add: shape_def)

lemma driver_steps_shape: "0 \<le> num_leds s \<Longrightarrow> shape (driver_steps cs s) = shape s"
proof (induction cs arbitrary: s)
  case Nil
  show ?case by (simp add: driver_steps_def)
next
  case (Cons c cs)
  have a: "shape (driver_step c s) = shape s" using Cons.prems by (rule driver_step_shape)
  then have "0 \<le> num_leds (driver_step c s)" using Cons.prems by (simp add: shape_def)
  from Cons.IH [OF this] a show ?case by (simp add: driver_steps_def)
qed

lemma set_brightness_range_shape: "shape (fst (set_brightness_range i k br s)) = shape s"
proof (induction k arbitrary: i s)
  case 0
  show ?case by simp
next
  case (Suc k)
  obtain s' x where a: "set_brightness (int i) br s = (s', x)" by force
  then have "shape s' = shape s" using set_brightness_shape [of "int i" br s] by simp
  then show ?case using a Suc [of "Suc i" s'] by (cases x) (simp_all add: andthen_def)
qed

lemma length_concat_replicate4: "length (concat (replicate k [a, b, c, d])) = 4 * k"
  by (induction k) simp_all

lemma construct_shape:
  assumes "0 \<le> n" and "construct n clock ib = Inr s"
  shows "num_leds s = n \<and> int (length (leds s)) = 4 * n"
proof -
  let ?s0 = "\<lparr>num_leds = n, max_clock_speed_hz = clock,
                leds = concat (replicate (nat n) [0, 0, 0, 0]), synced_buffer = [], spi = []\<rparr>"
  obtain s1 x where a: "set_global_brightness ib ?s0 = (s1, x)" by force
  have "shape s1 = shape ?s0"
    using set_brightness_range_shape [of 0 "nat n" ib ?s0] a
    by (simp add: set_global_brightness_def)
  then have b: "num_leds s1 = n" "int (length (leds s1)) = 4 * n"
    using assms(1) by (simp_all add: shape_def length_concat_replicate4)
  from assms(2) a have "s = s1\<lparr>synced_buffer := leds s1\<rparr>"
    by (cases x) (simp_all add: construct_def Let_def split: if_splits)
  with b show ?thesis by simp
qed

text \<open>
  C9.  A strip constructed with \<open>num_leds\<close> pixels (\<open>0 \<le> num_leds \<le> 1024\<close>, so that the
  constructor returns) has a frame buffer of exactly \<open>4 * num_leds\<close> bytes, and so it has
  after any sequence of \<open>set_pixel\<close>, \<open>set_brightness\<close>, \<open>rotate\<close> (any argument),
  \<open>sync_down\<close> and \<open>show\<close> calls, whatever their arguments, whether or not one of them raised,
  and whatever other processes stored into the mirror in between.
\<close>

theorem buffer_length_invariant:
  assumes "0 \<le> n" and "construct n clock ib = Inr s"
  shows "int (length (leds s)) = 4 * num_leds s \<and>
         int (length (leds (driver_steps cs s))) = 4 * num_leds (driver_steps cs s)"
proof -
  from construct_shape [OF assms] have a: "num_leds s = n" "int (length (leds s)) = 4 * n" by simp_all
  then have "0 \<le> num_leds s" using assms(1) by simp
  from driver_steps_shape [OF this, of cs] a show ?thesis by (simp add: shape_def)
qed

theorem buffer_length_invariant_witness:
  "(0::int) \<le> 3 \<and> construct 3 4000000 100 = Inr strip3 \<and>
   int (length (leds strip3)) = 4 * num_leds strip3 \<and>
   int (length (leds (driver_steps calls1 strip3))) = 4 * num_leds (driver_steps calls1 strip3) \<and>
   leds (driver_steps calls1 strip3) = [255, 0, 0, 0, 5, 0, 0, 255, 255, 0, 0, 0]"
proof -
  have c: "construct 3 4000000 100 = Inr strip3" by code_simp
  have v: "leds (driver_steps calls1 strip3) = [255, 0, 0, 0, 5, 0, 0, 255, 255, 0, 0, 0]"
    by code_simp
  have z: "(0::int) \<le> 3" by simp
  from buffer_length_invariant [OF z c, of calls1] show ?thesis using c v by simp
qed

subsection \<open>Rotation\<close>

lemma rotate_strip_valid:
  assumes "0 < num_leds s"
  shows "rotate_strip p s =
     (s\<lparr>leds := drop (nat (4 * (p mod num_leds s))) (leds s) @
                 take (nat (4 * (p mod num_leds s))) (leds s)\<rparr>, None)"
proof -
  have "0 \<le> p mod num_leds s" using assms by simp
  then have "\<not> 4 * (p mod num_leds s) < 0" by linarith
  then show ?thesis
    using assms by (simp add: rotate_strip_def Let_def slice_from_def slice_to_def slice_bound_def)
qed

lemma drop_take_rotate:
  "c \<le> length xs \<Longrightarrow> drop c xs @ take c xs = List.rotate c xs"
proof (cases "c = length xs")
  case True
  then show ?thesis by simp
next
  case False
  assume "c \<le> length xs"
  with False have "c mod length xs = c" by simp
  then show ?thesis by (simp add: rotate_drop_take)
qed

lemma rotate_back:
  assumes "0 < n" and "int (length xs) = 4 * n"
  shows "List.rotate (nat (4 * ((- p) mod n))) (List.rotate (nat (4 * (p mod n))) xs) = xs"
proof -
  have a: "0 \<le> p mod n" "p mod n < n" "0 \<le> (- p) mod n" using assms(1) by simp_all
  have "4 * ((- p) mod n) + 4 * (p mod n) = (if p mod n = 0 then 0 else 4 * n)"
  proof (cases "p mod n = 0")
    case True
    then show ?thesis by (simp add: zmod_zminus1_eq_if)
  next
    case False
    then have "(- p) mod n = n - p mod n" by (simp add: zmod_zminus1_eq_if)
    with False show ?thesis by simp
  qed
  then have "nat (4 * ((- p) mod n)) + nat (4 * (p mod n)) = (if p mod n = 0 then 0 else length xs)"
    using a assms(2) by (simp add: nat_add_distrib [symmetric] del: nat_add_distrib split: if_splits)
  then have "(nat (4 * ((- p) mod n)) + nat (4 * (p mod n))) mod length xs = 0"
    by (simp split: if_splits)
  then have "List.rotate (nat (4 * ((- p) mod n)) + nat (4 * (p mod n))) xs = xs"
    by (simp add: rotate_conv_mod [of "nat (4 * ((- p) mod n)) + nat (4 * (p mod n))"])
  then show ?thesis by (simp add: rotate_rotate add.commute)
qed

text \<open>
  C6.  On a strip with \<open>num_leds > 0\<close> whose buffer holds four bytes per pixel, for every
  integer \<open>p\<close> (negative and zero included): the cutoff \<open>4 * (p mod num_leds)\<close> is not
  negative, \<open>rotate p\<close> replaces the buffer by \<open>buffer[cutoff:] ++ buffer[:cutoff]\<close> and raises
  nothing, and \<open>rotate (-p)\<close> after it gives back the original object, buffer included.
\<close>

theorem rotate_there_and_back:
  assumes "0 < num_leds s" and "int (length (leds s)) = 4 * num_leds s"
  shows "0 \<le> 4 * (p mod num_leds s) \<and>
         rotate_strip p s =
           (s\<lparr>leds := drop (nat (4 * (p mod num_leds s))) (leds s) @
                       take (nat (4 * (p mod num_leds s))) (leds s)\<rparr>, None) \<and>
         rotate_strip (- p) (fst (rotate_strip p s)) = (s, None)"
proof -
  let ?n = "num_leds s" and ?xs = "leds s"
  let ?c = "nat (4 * (p mod ?n))" and ?d = "nat (4 * ((- p) mod ?n))"
  have b: "0 \<le> p mod ?n" "p mod ?n < ?n" "0 \<le> (- p) mod ?n" "(- p) mod ?n < ?n"
    using assms(1) by simp_all
  have c: "?c \<le> length ?xs" "?d \<le> length ?xs" using b assms(2) by linarith+
  have r1: "rotate_strip p s = (s\<lparr>leds := List.rotate ?c ?xs\<rparr>, None)"
    using rotate_strip_valid [OF assms(1), of p] drop_take_rotate [OF c(1)] by simp
  have "rotate_strip (- p) (s\<lparr>leds := List.rotate ?c ?xs\<rparr>)
          = (s\<lparr>leds := List.rotate ?d (List.rotate ?c ?xs)\<rparr>, None)"
    using rotate_strip_valid [of "s\<lparr>leds := List.rotate ?c ?xs\<rparr>" "- p"] assms(1)
      drop_take_rotate [of ?d "List.rotate ?c ?xs"] c(2) by simp
  then have "rotate_strip (- p) (fst (rotate_strip p s)) = (s, None)"
    using rotate_back [OF assms, of p] by (simp add: r1)
  then show ?thesis using b(1) rotate_strip_valid [OF assms(1), of p] by simp
qed

theorem rotate_there_and_back_witness:
  "0 < num_leds strip3c \<and> int (length (leds strip3c)) = 4 * num_leds strip3c \<and>
   rotate_strip (- 2) strip3c =
     (strip3c\<lparr>leds := [255, 0, 255, 0, 255, 255, 0, 0, 255, 0, 0, 255]\<rparr>, None) \<and>
   rotate_strip (- (- 2)) (fst (rotate_strip (- 2) strip3c)) = (strip3c, None)"
proof -
  have h: "0 < num_leds strip3c" "int (length (leds strip3c)) = 4 * num_leds strip3c"
    by (simp_all add: strip3c_def strip3_def)
  have r: "rotate_strip (- 2) strip3c =
     (strip3c\<lparr>leds := [255, 0, 255, 0, 255, 255, 0, 0, 255, 0, 0, 255]\<rparr>, None)"
    by code_simp
  from rotate_there_and_back [OF h, of "- 2"]
  have b: "rotate_strip (- (- 2)) (fst (rotate_strip (- 2) strip3c)) = (strip3c, None)"
    by (rule conjunct2 [THEN conjunct2])
  from h r b show ?thesis by blast
qed

subsection \<open>Transmission\<close>

lemma concat_blocks:
  "length xs = 4 * k \<Longrightarrow>
   concat (map (\<lambda>i. [xs ! (4 * i), xs ! (4 * i + 1), xs ! (4 * i + 2), xs ! (4 * i + 3)]) [0..<k]) = xs"
proof (induction k arbitrary: xs)
  case 0
  then show ?case by simp
next
  case (Suc k)
  then obtain a b c d rest where xs: "xs = a # b # c # d # rest"
    by (cases xs; cases "tl xs"; cases "tl (tl xs)"; cases "tl (tl (tl xs))") auto
  with Suc.prems have "length rest = 4 * k" by simp
  define F where "F = (\<lambda>i. [xs ! (4 * i), xs ! (4 * i + 1), xs ! (4 * i + 2), xs ! (4 * i + 3)])"
  define G where
    "G = (\<lambda>i. [rest ! (4 * i), rest ! (4 * i + 1), rest ! (4 * i + 2), rest ! (4 * i + 3)])"
  from Suc.IH [OF \<open>length rest = 4 * k\<close>] have ih: "concat (map G [0..<k]) = rest"
    by (simp only: G_def)
  have fg: "F (Suc i) = G i" for i by (simp add: F_def G_def xs add.commute)
  have f0: "F 0 = [a, b, c, d]" by (simp add: F_def xs)
  have "[0..<Suc k] = 0 # map Suc [0..<k]" by (simp add: upt_conv_Cons map_Suc_upt del: upt_Suc)
  then have "concat (map F [0..<Suc k]) = F 0 @ concat (map (\<lambda>i. F (Suc i)) [0..<k])"
    by (simp only: list.map concat.simps map_map comp_def)
  also have "\<dots> = [a, b, c, d] @ rest" by (simp only: fg f0 ih)
  finally show ?case by (simp only: F_def xs append.simps)
qed

lemma pixel_frame_valid:
  assumes "int (length (leds s)) = 4 * num_leds s" and "i < nat (num_leds s)"
  shows "pixel_frame s (int i) =
     [leds s ! (4 * i), leds s ! (4 * i + 1), leds s ! (4 * i + 2), leds s ! (4 * i + 3)]"
proof -
  have l: "4 * int i + 3 < int (length (leds s))" using assms by linarith
  have n: "nat (4 * int i) = 4 * i" "nat (4 * int i + 1) = 4 * i + 1"
    "nat (4 * int i + 2) = 4 * i + 2" "nat (4 * int i + 3) = 4 * i + 3" by linarith+
  show ?thesis using l
    by (simp add: pixel_frame_def get_pixel_def py_getitem_def py_index_def Let_def n)
qed

lemma frames_are_buffer:
  assumes "0 \<le> num_leds s" and "int (length (leds s)) = 4 * num_leds s"
  shows "concat (map (\<lambda>i. pixel_frame s (int i)) [0..<nat (num_leds s)]) = leds s"
proof -
  have "length (leds s) = 4 * nat (num_leds s)" using assms by linarith
  from concat_blocks [OF this] have
    "concat (map (\<lambda>i. [leds s ! (4 * i), leds s ! (4 * i + 1), leds s ! (4 * i + 2),
        leds s ! (4 * i + 3)]) [0..<nat (num_leds s)]) = leds s" .
  moreover have "map (\<lambda>i. pixel_frame s (int i)) [0..<nat (num_leds s)] =
      map (\<lambda>i. [leds s ! (4 * i), leds s ! (4 * i + 1), leds s ! (4 * i + 2),
        leds s ! (4 * i + 3)]) [0..<nat (num_leds s)]"
    by (rule map_ext) (auto simp: pixel_frame_valid [OF assms(2)])
  ultimately show ?thesis by (simp only:)
qed

lemma end_frame_ceiling: "spi_end_frame n = replicate (nat \<lceil>(of_int n :: rat) / 16\<rceil>) 0"
proof -
  have "\<lceil>(of_int n :: rat) / of_int 16\<rceil> = - (- n div 16)"
    by (rule ceiling_divide_eq_div)
  then have "\<lceil>(of_int n :: rat) / 16\<rceil> = (n + 15) div 16" by simp
  then show ?thesis by (simp add: spi_end_frame_def)
qed

lemma show_strip_sends:
  "show_strip s = (s\<lparr>spi := spi s @ [spi_start_frame, leds s, spi_end_frame (num_leds s)]\<rparr>, None)"
  by (simp add: show_strip_def andthen_def xfer2_def)

text \<open>
  C4.  On a strip whose buffer holds four bytes per pixel, \<open>show\<close> raises nothing and adds
  to what was transmitted before exactly: four zero bytes, then for each pixel in index
  order its four bytes \<open>[prefix, blue, green, red]\<close>, then \<open>ceil(num_leds / 16)\<close> zero bytes.
  In particular, a strip constructed with 3 pixels and initial brightness 100, after
  \<open>set_pixel(0,255,0,0)\<close>, \<open>set_pixel(1,0,255,0)\<close>, \<open>set_pixel(2,0,0,255)\<close> and \<open>show\<close>, has
  transmitted \<open>[0,0,0,0, 0xFF,0,0,255, 0xFF,0,255,0, 0xFF,255,0,0, 0]\<close>.
\<close>

theorem show_wire_format:
  assumes "0 \<le> num_leds s" and "int (length (leds s)) = 4 * num_leds s"
  shows "snd (show_strip s) = None \<and>
         transmitted (fst (show_strip s)) =
           transmitted s @ [0, 0, 0, 0] @
           concat (map (\<lambda>i. pixel_frame s (int i)) [0..<nat (num_leds s)]) @
           replicate (nat \<lceil>(of_int (num_leds s) :: rat) / 16\<rceil>) 0 \<and>
         construct 3 4000000 100 = Inr strip3 \<and>
         snd (scenario strip3) = None \<and>
         transmitted (fst (scenario strip3)) =
           [0, 0, 0, 0, 0xFF, 0, 0, 255, 0xFF, 0, 255, 0, 0xFF, 255, 0, 0, 0]"
proof -
  have c: "construct 3 4000000 100 = Inr strip3" by code_simp
  have e: "snd (scenario strip3) = None" by code_simp
  have t: "transmitted (fst (scenario strip3)) =
           [0, 0, 0, 0, 0xFF, 0, 0, 255, 0xFF, 0, 255, 0, 0xFF, 255, 0, 0, 0]" by code_simp
  show ?thesis
    using c e t
    by (simp add: show_strip_sends transmitted_def frames_are_buffer [OF assms]
        end_frame_ceiling spi_start_frame_def)
qed

theorem show_wire_format_witness:
  "0 \<le> num_leds strip3c \<and> int (length (leds strip3c)) = 4 * num_leds strip3c \<and>
   snd (show_strip strip3c) = None \<and>
   transmitted (fst (show_strip strip3c)) =
     [0, 0, 0, 0, 255, 0, 0, 255, 255, 0, 255, 0, 255, 255, 0, 0, 0]"
proof -
  have h: "0 \<le> num_leds strip3c" "int (length (leds strip3c)) = 4 * num_leds strip3c"
    by (simp_all add: strip3c_def strip3_def)
  have r: "transmitted strip3c @ [0, 0, 0, 0] @
           concat (map (\<lambda>i. pixel_frame strip3c (int i)) [0..<nat (num_leds strip3c)]) @
           replicate (nat \<lceil>(of_int (num_leds strip3c) :: rat) / 16\<rceil>) 0 =
           [0, 0, 0, 0, 255, 0, 0, 255, 255, 0, 255, 0, 255, 255, 0, 0, 0]"
    by code_simp
  from show_wire_format [OF h] show ?thesis using h r by simp
qed

section \<open>Properties of the color cycle template\<close>

subsection \<open>Configuration\<close>

lemma check_runnable_ok_iff:
  "check_runnable st = Inr () \<longleftrightarrow>
     truthy (pause_sec st) \<and> truthy (num_steps_per_cycle st) \<and> truthy (num_cycles st)"
  by (simp add: check_runnable_def)

lemma check_runnable_unset:
  \<open>pause_sec st = PNone \<Longrightarrow>
     check_runnable st = Inl (InvalidParameters ''Missing parameter "pause_sec"!'')\<close>
  \<open>truthy (pause_sec st) \<Longrightarrow> num_steps_per_cycle st = PNone \<Longrightarrow>
     check_runnable st = Inl (InvalidParameters ''Missing parameter "num_steps_per_cycle"!'')\<close>
  \<open>truthy (pause_sec st) \<Longrightarrow> truthy (num_steps_per_cycle st) \<Longrightarrow> num_cycles st = PNone \<Longrightarrow>
     check_runnable st = Inl (InvalidParameters ''Missing parameter "num_cycles"!'')\<close>
  by (simp_all add: check_runnable_def)

text \<open>
  C1.  The claim has \<open>check_runnable\<close> succeed once all three parameters have been set to
  values that the validators accept, \<open>pause_sec = 0\<close> in particular.  The code tests the
  truth value of each parameter, not whether it was set: after \<open>pause_sec\<close> was set to 0,
  which the validator for non-negative numbers accepts, and the two other parameters to 5
  and 3, \<open>check_runnable\<close> raises and reports \<open>pause_sec\<close> as missing.
\<close>

theorem check_runnable_zero_pause:
  \<open>verify_not_negative_numeric (PInt 0) ''pause_sec'' = None \<and>
   zero_pause_show = Inr st_0_5_3 \<and>
   check_runnable st_0_5_3 = Inl (InvalidParameters ''Missing parameter "pause_sec"!'')\<close>
  by (simp add: zero_pause_show_def st_0_5_3_def set_parameter_def init_parameters_def
      verify_not_negative_numeric_def verify_positive_integer_def check_runnable_def)

subsection \<open>The run loop never calls the shutdown hook\<close>

lemma count_do_call:
  "c \<noteq> Shutdown \<Longrightarrow> count_list (fst (do_call env c tr)) Shutdown = count_list tr Shutdown"
  by (simp add: do_call_def split: outcome.splits)

lemma count_sleep: "count_list (fst (sleep env secs tr)) Shutdown = count_list tr Shutdown"
  by (simp add: sleep_def count_do_call split: pyval.splits)

lemma count_seq:
  assumes "\<And>tr. count_list (fst (f tr)) Shutdown = count_list tr Shutdown"
    and "\<And>tr. count_list (fst (g tr)) Shutdown = count_list tr Shutdown"
  shows "count_list (fst (seq f g tr)) Shutdown = count_list tr Shutdown"
proof (cases "f tr")
  case (Pair tr' x)
  then have "count_list tr' Shutdown = count_list tr Shutdown" using assms(1) [of tr] by simp
  with Pair show ?thesis using assms(2) [of tr'] by (cases x) (simp_all add: seq_def)
qed

lemma count_one_step:
  "count_list (fst (one_step env pause s c tr)) Shutdown = count_list tr Shutdown"
proof (cases "env tr (Update s c)")
  case (Raises e)
  then show ?thesis by (simp add: one_step_def)
next
  case (Returns b)
  have "count_list (fst (seq (if b then do_call env StripShow else (\<lambda>tr'. (tr', None)))
          (sleep env pause) (tr @ [Update s c]))) Shutdown = count_list (tr @ [Update s c]) Shutdown"
    by (rule count_seq) (simp_all add: count_do_call count_sleep)
  with Returns show ?thesis by (simp add: one_step_def)
qed

lemma count_run_steps:
  "count_list (fst (run_steps env pause c steps tr)) Shutdown = count_list tr Shutdown"
proof (induction steps arbitrary: tr)
  case Nil
  show ?case by simp
next
  case (Cons s steps)
  obtain tr' x where a: "one_step env pause s c tr = (tr', x)" by force
  then have "count_list tr' Shutdown = count_list tr Shutdown"
    using count_one_step [of env pause s c tr] by simp
  with a Cons [of tr'] show ?case by (cases x) simp_all
qed

lemma count_run_cycles:
  "run_cycles fuel env st c tr = Some (tr', x) \<Longrightarrow> count_list tr' Shutdown = count_list tr Shutdown"
proof (induction fuel arbitrary: c tr)
  case 0
  then show ?case by simp
next
  case (Suc fuel)
  show ?case
  proof (cases "py_range (num_steps_per_cycle st)")
    case (Inl e)
    with Suc.prems show ?thesis by simp
  next
    case (Inr steps)
    obtain tr1 y where a: "run_steps env (pause_sec st) c steps tr = (tr1, y)" by force
    then have b: "count_list tr1 Shutdown = count_list tr Shutdown"
      using count_run_steps [of env "pause_sec st" c steps tr] by simp
    show ?thesis
    proof (cases y)
      case (Some e)
      with Suc.prems Inr a b show ?thesis by simp
    next
      case None
      show ?thesis
      proof (cases "cycles_done (num_cycles st) (c + 1)")
        case (Inl e)
        with Suc.prems Inr a b None show ?thesis by simp
      next
        case (Inr d)
        show ?thesis
        proof (cases d)
          case True
          with Suc.prems \<open>py_range (num_steps_per_cycle st) = Inr steps\<close> a b None Inr
          show ?thesis by simp
        next
          case False
          with Suc.prems \<open>py_range (num_steps_per_cycle st) = Inr steps\<close> a None Inr
          have "run_cycles fuel env st (c + 1) tr1 = Some (tr', x)" by simp
          from Suc.IH [OF this] b show ?thesis by simp
        qed
      qed
    qed
  qed
qed

lemma count_run_show:
  assumes "run_show fuel env st = Some (pre, x)"
  shows "count_list pre Shutdown = 0"
proof -
  obtain tr y where a: "seq (do_call env Init) (do_call env StripShow) [] = (tr, y)" by force
  have "count_list (fst (seq (do_call env Init) (do_call env StripShow) [])) Shutdown
          = count_list [] Shutdown"
    by (rule count_seq) (simp_all add: count_do_call)
  with a have b: "count_list tr Shutdown = 0" by simp
  show ?thesis
  proof (cases y)
    case (Some e)
    with assms a b show ?thesis by (simp add: run_show_def)
  next
    case None
    with assms a have "run_cycles fuel env st 0 tr = Some (pre, x)" by (simp add: run_show_def)
    from count_run_cycles [OF this] b show ?thesis by simp
  qed
qed

subsection \<open>A bounded run returns\<close>

text \<open>
  With \<^verbatim>\<open>num_cycles\<close> an integer other than \<open>-1\<close>, \<open>run\<close> ends, normally or by an exception,
  whatever the hooks do: following that many cycles of the loop (at least one) is enough.
\<close>

lemma run_cycles_returns:
  assumes k: "num_cycles st = PInt k" and m: "k \<noteq> - 1"
  shows "nat (k - c) \<le> fuel \<Longrightarrow> 0 < fuel \<Longrightarrow> \<exists>r. run_cycles fuel env st c tr = Some r"
proof (induction fuel arbitrary: c tr)
  case 0
  then show ?case by simp
next
  case (Suc fuel)
  show ?case
  proof (cases "py_range (num_steps_per_cycle st)")
    case (Inl e)
    then show ?thesis by simp
  next
    case (Inr steps)
    obtain tr1 y where a: "run_steps env (pause_sec st) c steps tr = (tr1, y)" by force
    show ?thesis
    proof (cases y)
      case (Some e)
      with Inr a show ?thesis by simp
    next
      case None
      show ?thesis
      proof (cases "c + 1 \<ge> k")
        case True
        with Inr a None k m show ?thesis by (simp add: cycles_done_def)
      next
        case False
        then have "nat (k - (c + 1)) \<le> fuel" "0 < fuel" using Suc.prems by linarith+
        from Suc.IH [OF this, of tr1] obtain r where "run_cycles fuel env st (c + 1) tr1 = Some r"
          by blast
        with False Inr a None k m show ?thesis by (simp add: cycles_done_def)
      qed
    qed
  qed
qed

lemma run_returns:
  assumes "num_cycles st = PInt k" and "k \<noteq> - 1" and "nat k \<le> fuel" and "0 < fuel"
  shows "\<exists>r. run fuel env st = Some r"
proof -
  have "\<exists>r. run_show fuel env st = Some r"
  proof (cases "seq (do_call env Init) (do_call env StripShow) []")
    case (Pair tr y)
    show ?thesis
    proof (cases y)
      case (Some e)
      with Pair show ?thesis by (simp add: run_show_def)
    next
      case None
      from assms(3) have "nat (k - 0) \<le> fuel" by simp
      from run_cycles_returns [OF assms(1,2) this assms(4), of env tr] Pair None
      show ?thesis by (simp add: run_show_def)
    qed
  qed
  then obtain tr x where "run_show fuel env st = Some (tr, x)" by force
  then have "\<exists>r. run_try fuel env st = Some r" by (cases x) (simp_all add: run_try_def)
  then obtain tr' x' where t: "run_try fuel env st = Some (tr', x')" by force
  show ?thesis
  proof (cases x')
    case None
    with t show ?thesis by (simp add: run_def)
  next
    case (Some e)
    with t show ?thesis by (cases e) (simp_all add: run_def)
  qed
qed

subsection \<open>Cleanup\<close>




text \<open>
  Without that condition \<open>cleanup\<close> can be executed twice: Ctrl-C while the buffer is being
  cleared after the last cycle is caught by the handler of \<open>run\<close>, which starts \<open>cleanup\<close>
  again.
\<close>

lemma run_ctrl_c_in_cleanup:
  "run 1 env_ctrl_c_cleanup st_0_1_1 =
     Some ([Init, StripShow, Update 0 0, Sleep (PInt 0), Shutdown, ClearBuffer,
            Shutdown, ClearBuffer, StripShow, Release], None) \<and>
   cleanup_runs [Init, StripShow, Update 0 0, Sleep (PInt 0), Shutdown, ClearBuffer,
            Shutdown, ClearBuffer, StripShow, Release] = 2"
  by code_simp



subsection \<open>A run without exceptions\<close>

lemma update_args_append: "update_args (xs @ ys) = update_args xs @ update_args ys"
  by (induction xs rule: update_args.induct) simp_all

lemma do_call_quiet:
  assumes "\<forall>tr c e. env tr c \<noteq> Raises e"
  shows "do_call env c tr = (tr @ [c], None)"
proof (cases "env tr c")
  case (Returns b)
  then show ?thesis by (simp add: do_call_def)
next
  case (Raises e)
  with assms show ?thesis by simp
qed

lemma sleep_quiet:
  assumes "\<forall>tr c e. env tr c \<noteq> Raises e" and "valid_pause pause"
  shows "sleep env pause tr = (tr @ [Sleep pause], None)"
  using assms(2) by (cases pause) (simp_all add: sleep_def valid_pause_def do_call_quiet [OF assms(1)])

lemma one_step_quiet:
  assumes "\<forall>tr c e. env tr c \<noteq> Raises e" and "valid_pause pause"
  shows "\<exists>tr'. one_step env pause s c tr = (tr', None) \<and>
           update_args tr' = update_args tr @ [(s, c)]"
proof (cases "env tr (Update s c)")
  case (Raises e)
  with assms(1) show ?thesis by simp
next
  case (Returns b)
  then show ?thesis
    by (cases b)
      (simp_all add: one_step_def seq_def do_call_quiet [OF assms(1)] sleep_quiet [OF assms]
        update_args_append)
qed

lemma run_steps_quiet:
  assumes "\<forall>tr c e. env tr c \<noteq> Raises e" and "valid_pause pause"
  shows "\<exists>tr'. run_steps env pause c steps tr = (tr', None) \<and>
           update_args tr' = update_args tr @ map (\<lambda>s. (s, c)) steps"
proof (induction steps arbitrary: tr)
  case Nil
  show ?case by simp
next
  case (Cons s steps)
  from one_step_quiet [OF assms, of s c tr] obtain tr1 where
    a: "one_step env pause s c tr = (tr1, None)" "update_args tr1 = update_args tr @ [(s, c)]"
    by blast
  from Cons [of tr1] obtain tr2 where
    b: "run_steps env pause c steps tr1 = (tr2, None)"
       "update_args tr2 = update_args tr1 @ map (\<lambda>s. (s, c)) steps"
    by blast
  from a b show ?case by simp
qed

lemma run_cycles_quiet:
  assumes q: "\<forall>tr c e. env tr c \<noteq> Raises e" and p: "valid_pause (pause_sec st)"
    and n: "num_steps_per_cycle st = PInt n" and k: "num_cycles st = PInt k"
  shows "0 \<le> c \<Longrightarrow> c < k \<Longrightarrow> nat (k - c) \<le> fuel \<Longrightarrow>
         \<exists>tr'. run_cycles fuel env st c tr = Some (tr', None) \<and>
           update_args tr' =
             update_args tr @ concat (map (\<lambda>cy. map (\<lambda>s. (s, cy)) [0..n - 1]) [c..k - 1])"
proof (induction fuel arbitrary: c tr)
  case 0
  then show ?case by simp
next
  case (Suc fuel)
  from run_steps_quiet [OF q p, of c "[0..n - 1]" tr] obtain tr1 where
    a: "run_steps env (pause_sec st) c [0..n - 1] tr = (tr1, None)"
       "update_args tr1 = update_args tr @ map (\<lambda>s. (s, c)) [0..n - 1]"
    by blast
  have u: "[c..k - 1] = c # [c + 1..k - 1]" using Suc.prems(2) by (simp add: upto_rec1)
  show ?case
  proof (cases "c + 1 \<ge> k")
    case True
    then have e: "[c + 1..k - 1] = []" by simp
    from Suc.prems(1,2) have "k \<noteq> - 1" by linarith
    with True a show ?thesis
      by (simp add: n k py_range_def cycles_done_def u e)
  next
    case False
    then have "0 \<le> c + 1" "c + 1 < k" "nat (k - (c + 1)) \<le> fuel"
      using Suc.prems by linarith+
    from Suc.IH [OF this, of tr1] obtain tr2 where
      b: "run_cycles fuel env st (c + 1) tr1 = Some (tr2, None)"
         "update_args tr2 = update_args tr1 @
            concat (map (\<lambda>cy. map (\<lambda>s. (s, cy)) [0..n - 1]) [c + 1..k - 1])"
      by blast
    from False a b show ?thesis
      by (simp add: n k py_range_def cycles_done_def u)
  qed
qed

text \<open>
  C3.  With \<open>num_steps_per_cycle = 5\<close> and \<open>num_cycles = 3\<close>, a pause that \<^verbatim>\<open>time.sleep\<close>
  accepts and no call raising, \<open>run\<close> returns (three cycles of the loop are enough), the
  update hook has been called exactly 15 times, with \<open>(step, cycle)\<close> running through
  \<open>(0,0) \<dots> (4,0), (0,1) \<dots> (4,1), (0,2) \<dots> (4,2)\<close> in this order, and \<open>cleanup\<close> was
  executed exactly once, after all of these calls, as the last four calls of the run.
\<close>

theorem run_5_steps_3_cycles:
  assumes "\<forall>tr c e. env tr c \<noteq> Raises e" and "valid_pause (pause_sec st)"
    and "num_steps_per_cycle st = PInt 5" and "num_cycles st = PInt 3" and "3 \<le> fuel"
  shows "\<exists>pre. run fuel env st = Some (pre @ cleanup_calls, None) \<and>
           update_args pre =
             [(0, 0), (1, 0), (2, 0), (3, 0), (4, 0),
              (0, 1), (1, 1), (2, 1), (3, 1), (4, 1),
              (0, 2), (1, 2), (2, 2), (3, 2), (4, 2)] \<and>
           length (update_args (pre @ cleanup_calls)) = 15 \<and>
           cleanup_runs pre = 0 \<and> cleanup_runs (pre @ cleanup_calls) = 1"
proof -
  have i: "seq (do_call env Init) (do_call env StripShow) [] = ([Init, StripShow], None)"
    by (simp add: seq_def do_call_quiet [OF assms(1)])
  have f: "nat (3 - 0) \<le> fuel" using assms(5) by simp
  from run_cycles_quiet [OF assms(1-4) _ _ f, of "[Init, StripShow]"] obtain pre where
    a: "run_cycles fuel env st 0 [Init, StripShow] = Some (pre, None)"
    and b: "update_args pre = update_args [Init, StripShow] @
        concat (map (\<lambda>cy. map (\<lambda>s. (s, cy)) [0..5 - 1]) [0..3 - 1])"
    by auto
  have l: "concat (map (\<lambda>cy. map (\<lambda>s. (s, cy)) [0..5 - 1]) [0..3 - 1]) =
             [(0, 0), (1, 0), (2, 0), (3, 0), (4, 0),
              (0, 1), (1, 1), (2, 1), (3, 1), (4, 1),
              (0, 2), (1, 2), (2, 2), (3, 2), (4::int, 2::int)]"
    by code_simp
  have s: "run_show fuel env st = Some (pre, None)" using i a by (simp add: run_show_def)
  have c: "cleanup env pre = (pre @ cleanup_calls, None)"
    by (simp add: cleanup_def clearStrip_def strip_cleanup_def seq_def cleanup_calls_def
        do_call_quiet [OF assms(1)])
  have z: "cleanup_runs pre = 0" using count_run_show [OF s] by (simp add: cleanup_runs_def)
  have r: "run fuel env st = Some (pre @ cleanup_calls, None)"
    using s c by (simp add: run_def run_try_def)
  have u: "update_args pre =
             [(0, 0), (1, 0), (2, 0), (3, 0), (4, 0),
              (0, 1), (1, 1), (2, 1), (3, 1), (4, 1),
              (0, 2), (1, 2), (2, 2), (3, 2), (4, 2)]"
    using b l by simp
  have "length (update_args (pre @ cleanup_calls)) = 15"
    by (simp add: update_args_append u cleanup_calls_def)
  moreover have "cleanup_runs (pre @ cleanup_calls) = 1"
    using z by (simp add: cleanup_runs_def cleanup_calls_def)
  ultimately show ?thesis using r u z by blast
qed

theorem run_5_steps_3_cycles_witness:
  "(\<forall>tr c e. env_quiet tr c \<noteq> Raises e) \<and> valid_pause (pause_sec st_0_5_3) \<and>
   num_steps_per_cycle st_0_5_3 = PInt 5 \<and> num_cycles st_0_5_3 = PInt 3 \<and> (3::nat) \<le> 3 \<and>
   (\<exists>pre. run 3 env_quiet st_0_5_3 = Some (pre @ cleanup_calls, None) \<and>
      update_args pre =
        [(0, 0), (1, 0), (2, 0), (3, 0), (4, 0),
         (0, 1), (1, 1), (2, 1), (3, 1), (4, 1),
         (0, 2), (1, 2), (2, 2), (3, 2), (4, 2)] \<and>
      length (update_args (pre @ cleanup_calls)) = 15 \<and>
      cleanup_runs pre = 0 \<and> cleanup_runs (pre @ cleanup_calls) = 1)"
proof -
  have q: "\<forall>tr c e. env_quiet tr c \<noteq> Raises e" by (simp add: env_quiet_def)
  have p: "valid_pause (pause_sec st_0_5_3)" by (simp add: st_0_5_3_def valid_pause_def)
  have n: "num_steps_per_cycle st_0_5_3 = PInt 5" by (simp add: st_0_5_3_def)
  have k: "num_cycles st_0_5_3 = PInt 3" by (simp add: st_0_5_3_def)
  have f: "(3::nat) \<le> 3" by simp
  from run_5_steps_3_cycles [OF q p n k f] q p n k f show ?thesis by blast
qed

end
